theory Spec2Isabelle
  imports Complex_Main "HOL-Library.Signed_Division" "HOL-Library.Product_Lexorder"
    "HOL-Library.Multiset"
begin

section \<open>Data model (types.ts, state.ts, pathfinding.ts)\<close>

text \<open>
  A \<open>PublicKey\<close> is an opaque identifier that the code only compares (\<open>equals\<close>) and
  turns into a map key (\<open>toBase58\<close>, injective); it is a natural number here.
  \<open>BN\<close> is bn.js: signed integers of arbitrary size, so \<open>int\<close>, with \<open>div\<close> truncating
  towards zero (\<open>sdiv\<close>) and failing on a zero divisor.  \<open>feeBps\<close>, \<open>hops\<close> and
  \<open>maxHops\<close> are JavaScript numbers holding integers.
\<close>

type_synonym PublicKey = nat

record PoolInfo =
  address :: PublicKey
  tokenA :: PublicKey
  tokenB :: PublicKey
  feeBps :: int
  reserveA :: int
  reserveB :: int

record PathNode =
  token :: PublicKey
  cost :: int
  hops :: int
  path :: "PublicKey list"
  amountOut :: int

text \<open>The object built by \<open>new AStarPathfinder(pools, maxHops)\<close>.\<close>

record AStarPathfinder =
  pools :: "PoolInfo list"
  maxHops :: int

text \<open>The result \<open>{ route, amountOut }\<close> of a search, as a pair.\<close>

type_synonym RouteAmount = "PublicKey list \<times> int"

text \<open>
  The local state of one call of \<open>findOptimalRoute\<close>: the open list, the visited set,
  the best-known table (token to amount and hops) and the best solution so far.
\<close>

record SearchState =
  openSet :: "PathNode list"
  visited :: "PublicKey set"
  bestRoutes :: "PublicKey \<rightharpoonup> (int \<times> int)"
  bestSolution :: "RouteAmount option"

record SwapQuote =
  inputAmount :: int
  outputAmount :: int
  priceImpact :: real
  fee :: int
  route :: "PublicKey list"

datatype bn_error = AssertionFailed

section \<open>Pricing (pathfinding.ts, state.ts)\<close>

definition getOtherToken :: "PoolInfo \<Rightarrow> PublicKey \<Rightarrow> PublicKey option" where
  "getOtherToken pool tok =
     (if tok = tokenA pool then Some (tokenB pool)
      else if tok = tokenB pool then Some (tokenA pool)
      else None)"

text \<open>\<open>AStarPathfinder.getOutputAmount\<close>: the division is guarded by the zero test.\<close>

definition getOutputAmount :: "PoolInfo \<Rightarrow> PublicKey \<Rightarrow> int \<Rightarrow> int option" where
  "getOutputAmount pool inputMint amountIn =
     (let isTokenA = (inputMint = tokenA pool);
          isTokenB = (inputMint = tokenB pool)
      in if \<not> isTokenA \<and> \<not> isTokenB then None
         else
           let reserveIn = (if isTokenA then reserveA pool else reserveB pool);
               reserveOut = (if isTokenA then reserveB pool else reserveA pool);
               feeFactor = 10000 - feeBps pool;
               amountInWithFee = amountIn * feeFactor;
               numerator = amountInWithFee * reserveOut;
               denominator = reserveIn * 10000 + amountInWithFee
           in if denominator = 0 then None else Some (numerator sdiv denominator))"

text \<open>
  \<open>PoolInfoState.getOutputAmount\<close>: the same formula without the zero test, so that
  bn.js's \<open>div\<close> fails its assertion on a zero denominator.
\<close>

definition PoolInfoState_getOutputAmount :: "PoolInfo \<Rightarrow> PublicKey \<Rightarrow> int \<Rightarrow> bn_error + int option" where
  "PoolInfoState_getOutputAmount pool inputMint amountIn =
     (let isTokenA = (inputMint = tokenA pool);
          isTokenB = (inputMint = tokenB pool)
      in if \<not> isTokenA \<and> \<not> isTokenB then Inr None
         else
           let reserveIn = (if isTokenA then reserveA pool else reserveB pool);
               reserveOut = (if isTokenA then reserveB pool else reserveA pool);
               feeFactor = 10000 - feeBps pool;
               amountInWithFee = amountIn * feeFactor;
               numerator = amountInWithFee * reserveOut;
               denominator = reserveIn * 10000 + amountInWithFee
           in if denominator = 0 then Inl AssertionFailed
              else Inr (Some (numerator sdiv denominator)))"

text \<open>
  The data model's pools: a fee in basis points below 10000 and unsigned reserves.
\<close>

definition wf_pool :: "PoolInfo \<Rightarrow> bool" where
  "wf_pool pool = (0 \<le> feeBps pool \<and> feeBps pool < 10000 \<and> 0 \<le> reserveA pool \<and> 0 \<le> reserveB pool)"

text \<open>The reserves on the input and on the output side, and the formula's denominator.\<close>

definition reserveIn :: "PoolInfo \<Rightarrow> PublicKey \<Rightarrow> int" where
  "reserveIn pool inputMint = (if inputMint = tokenA pool then reserveA pool else reserveB pool)"

definition reserveOut :: "PoolInfo \<Rightarrow> PublicKey \<Rightarrow> int" where
  "reserveOut pool inputMint = (if inputMint = tokenA pool then reserveB pool else reserveA pool)"

definition denominator :: "PoolInfo \<Rightarrow> PublicKey \<Rightarrow> int \<Rightarrow> int" where
  "denominator pool inputMint amountIn =
     reserveIn pool inputMint * 10000 + amountIn * (10000 - feeBps pool)"

section \<open>Route search (pathfinding.ts)\<close>

text \<open>
  The constructor: \<open>this.maxHops = Math.min(maxHops, 5)\<close>.  The default 3 of an omitted
  argument is passed by the caller here.
\<close>

definition AStarPathfinder_new :: "PoolInfo list \<Rightarrow> int \<Rightarrow> AStarPathfinder" where
  "AStarPathfinder_new ps requested = \<lparr>pools = ps, maxHops = min requested 5\<rparr>"

text \<open>
  The body of \<open>for (const pool of this.pools)\<close> for the node \<open>current\<close>: the pool is
  skipped when it does not hold the current token, when its other token is visited, or
  when its output is none or zero; otherwise the neighbour is pushed when it improves on
  the best-known entry of its token.
\<close>

definition shouldExplore :: "(int \<times> int) option \<Rightarrow> int \<Rightarrow> int \<Rightarrow> bool" where
  "shouldExplore bestNext out h =
     (case bestNext of
        None \<Rightarrow> True
      | Some (bestAmount, bestHops) \<Rightarrow> out > bestAmount \<or> (out = bestAmount \<and> h + 1 < bestHops))"

definition explore :: "PathNode \<Rightarrow> SearchState \<Rightarrow> PoolInfo \<Rightarrow> SearchState" where
  "explore current st pool =
     (case getOtherToken pool (token current) of
        None \<Rightarrow> st
      | Some nextToken \<Rightarrow>
          if nextToken \<in> visited st then st
          else
            (case getOutputAmount pool (token current) (amountOut current) of
               None \<Rightarrow> st
             | Some out \<Rightarrow>
                 if out = 0 then st
                 else if shouldExplore (bestRoutes st nextToken) out (hops current) then
                   st\<lparr>bestRoutes := (bestRoutes st)(nextToken \<mapsto> (out, hops current + 1)),
                      openSet := openSet st @
                        [\<lparr>token = nextToken, cost = 2 ^ 64 - out, hops = hops current + 1,
                          path = path current @ [address pool], amountOut = out\<rparr>]\<rparr>
                 else st))"

text \<open>
  The test that skips a popped node: its token has a best-known entry with a greater
  amount, or with the same amount and fewer hops.
\<close>

definition stale :: "SearchState \<Rightarrow> PathNode \<Rightarrow> bool" where
  "stale st current =
     (case bestRoutes st (token current) of
        None \<Rightarrow> False
      | Some (bestAmount, bestHops) \<Rightarrow>
          amountOut current < bestAmount \<or> (amountOut current = bestAmount \<and> hops current > bestHops))"

text \<open>
  What one turn of the \<open>while\<close> loop does with the node \<open>current\<close> taken from the
  front of the sorted open list, \<open>st\<close> being the state after the \<open>shift\<close>.
\<close>

definition visit :: "AStarPathfinder \<Rightarrow> PublicKey \<Rightarrow> PathNode \<Rightarrow> SearchState \<Rightarrow> SearchState" where
  "visit pf outputMint current st =
     (if stale st current then st
      else if token current = outputMint then
        (if (case bestSolution st of None \<Rightarrow> True | Some (r, best) \<Rightarrow> amountOut current > best)
         then st\<lparr>bestSolution := Some (path current, amountOut current)\<rparr>
         else st)
      else if hops current \<ge> maxHops pf then st
      else foldl (explore current) (st\<lparr>visited := insert (token current) (visited st)\<rparr>) (pools pf))"

text \<open>
  One turn of the loop: the open list is sorted by cost, then by hops (the sort of
  JavaScript is stable, as \<open>sort_key\<close> is), and its first node is taken out.
\<close>

definition iterate :: "AStarPathfinder \<Rightarrow> PublicKey \<Rightarrow> SearchState \<Rightarrow> SearchState" where
  "iterate pf outputMint st =
     (case sort_key (\<lambda>n. (cost n, hops n)) (openSet st) of
        [] \<Rightarrow> st
      | current # rest \<Rightarrow> visit pf outputMint current (st\<lparr>openSet := rest\<rparr>))"

text \<open>
  The weight of an open list, which every turn of the loop decreases: a node with \<open>r\<close>
  hops left counts \<open>(number of pools + 1) ^ r\<close>, more than the nodes it can push.
\<close>

definition weight :: "AStarPathfinder \<Rightarrow> PathNode \<Rightarrow> nat" where
  "weight pf n = Suc (length (pools pf)) ^ nat (maxHops pf - hops n)"

definition total_weight :: "AStarPathfinder \<Rightarrow> PathNode list \<Rightarrow> nat" where
  "total_weight pf ns = sum_list (map (weight pf) ns)"

text \<open>Sorting keeps the weight; a pushed node weighs one power less than its parent.\<close>

lemma total_weight_sort_key: "total_weight pf (sort_key k ns) = total_weight pf ns"
proof -
  have "sum_mset (image_mset (weight pf) (mset (sort_key k ns))) = sum_mset (image_mset (weight pf) (mset ns))"
    by simp
  then show ?thesis
    unfolding total_weight_def by (metis mset_map sum_mset_sum_list)
qed

lemma total_weight_explore:
  "total_weight pf (openSet (explore current st pool))
     \<le> total_weight pf (openSet st) + Suc (length (pools pf)) ^ nat (maxHops pf - (hops current + 1))"
  by (simp add: explore_def total_weight_def weight_def split: option.splits)

lemma visited_explore: "visited (explore current st pool) = visited st"
  by (simp add: explore_def split: option.splits)

lemma total_weight_foldl_explore:
  "total_weight pf (openSet (foldl (explore current) st ps))
     \<le> total_weight pf (openSet st) + length ps * Suc (length (pools pf)) ^ nat (maxHops pf - (hops current + 1))"
proof (induction ps arbitrary: st)
  case Nil
  then show ?case by simp
next
  case (Cons p ps)
  have "total_weight pf (openSet (foldl (explore current) (explore current st p) ps))
          \<le> total_weight pf (openSet (explore current st p))
             + length ps * Suc (length (pools pf)) ^ nat (maxHops pf - (hops current + 1))"
    by (rule Cons.IH)
  also have "\<dots> \<le> (total_weight pf (openSet st) + Suc (length (pools pf)) ^ nat (maxHops pf - (hops current + 1)))
             + length ps * Suc (length (pools pf)) ^ nat (maxHops pf - (hops current + 1))"
    using total_weight_explore [of pf current st p] by simp
  finally show ?case by simp
qed

lemma total_weight_visit:
  "total_weight pf (openSet (visit pf outputMint current st)) < weight pf current + total_weight pf (openSet st)"
proof -
  let ?W = "Suc (length (pools pf))"
  have pos: "0 < weight pf current" by (simp add: weight_def)
  show ?thesis
  proof (cases "\<not> stale st current \<and> token current \<noteq> outputMint \<and> \<not> hops current \<ge> maxHops pf")
    case False
    then show ?thesis using pos by (auto simp: visit_def split: option.splits)
  next
    case True
    then have lt: "hops current < maxHops pf" by simp
    then have r: "nat (maxHops pf - hops current) = Suc (nat (maxHops pf - (hops current + 1)))"
      by linarith
    have "total_weight pf (openSet (visit pf outputMint current st))
            \<le> total_weight pf (openSet st) + length (pools pf) * ?W ^ nat (maxHops pf - (hops current + 1))"
      using True total_weight_foldl_explore [of pf current "st\<lparr>visited := insert (token current) (visited st)\<rparr>" "pools pf"]
      by (simp add: visit_def)
    also have "\<dots> < total_weight pf (openSet st) + ?W * ?W ^ nat (maxHops pf - (hops current + 1))"
      by simp
    finally show ?thesis by (simp add: weight_def r)
  qed
qed

lemma iterate_decreases:
  assumes "openSet st \<noteq> []"
  shows "total_weight pf (openSet (iterate pf outputMint st)) < total_weight pf (openSet st)"
proof (cases "sort_key (\<lambda>n. (cost n, hops n)) (openSet st)")
  case Nil
  then have "length (sort_key (\<lambda>n. (cost n, hops n)) (openSet st)) = 0" by simp
  with assms show ?thesis by simp
next
  case (Cons current rest)
  have "total_weight pf (openSet st) = total_weight pf (current # rest)"
    using total_weight_sort_key [of pf "\<lambda>n. (cost n, hops n)" "openSet st"] Cons by simp
  then have "total_weight pf (openSet st) = weight pf current + total_weight pf rest"
    by (simp add: total_weight_def)
  then show ?thesis
    using total_weight_visit [of pf outputMint current "st\<lparr>openSet := rest\<rparr>"] Cons
    by (simp add: iterate_def)
qed

text \<open>
  The \<open>while (openSet.length > 0)\<close> loop of \<open>findOptimalRoute\<close>, and what it returns
  when the open list is empty.
\<close>

function search :: "AStarPathfinder \<Rightarrow> PublicKey \<Rightarrow> SearchState \<Rightarrow> RouteAmount option" where
  "search pf outputMint st =
     (if openSet st = [] then bestSolution st else search pf outputMint (iterate pf outputMint st))"
  by pat_completeness auto
termination
  by (relation "measure (\<lambda>(pf, outputMint, st). total_weight pf (openSet st))")
     (simp_all add: iterate_decreases)

declare search.simps [simp del]

text \<open>\<open>AStarPathfinder.findOptimalRoute\<close>; \<open>None\<close> is the \<open>null\<close> of the source.\<close>

definition findOptimalRoute :: "AStarPathfinder \<Rightarrow> PublicKey \<Rightarrow> PublicKey \<Rightarrow> int \<Rightarrow> RouteAmount option" where
  "findOptimalRoute pf inputMint outputMint amountIn =
     (if inputMint = outputMint then None
      else search pf outputMint
             \<lparr>openSet = [\<lparr>token = inputMint, cost = 0, hops = 0, path = [], amountOut = amountIn\<rparr>],
              visited = {},
              bestRoutes = [inputMint \<mapsto> (amountIn, 0)],
              bestSolution = None\<rparr>)"

section \<open>Quotes (wayfinder.ts)\<close>

text \<open>
  \<open>WayfinderClient.getSwapQuote\<close>, without the promise around it: the fee adds, for
  every pool address of the route found in the snapshot, the pool's fee rate applied to
  \<open>amountIn\<close>; the price impact is the constant \<open>0\<close> of the source.
\<close>

definition getSwapQuote ::
  "PublicKey \<Rightarrow> PublicKey \<Rightarrow> int \<Rightarrow> PoolInfo list \<Rightarrow> int \<Rightarrow> SwapQuote option" where
  "getSwapQuote inputMint outputMint amountIn ps requested =
     (case findOptimalRoute (AStarPathfinder_new ps requested) inputMint outputMint amountIn of
        None \<Rightarrow> None
      | Some (r, out) \<Rightarrow>
          Some \<lparr>inputAmount = amountIn,
                outputAmount = out,
                priceImpact = 0,
                fee = foldl (\<lambda>totalFee poolAddress.
                               case find (\<lambda>p. address p = poolAddress) ps of
                                 None \<Rightarrow> totalFee
                               | Some pool \<Rightarrow> totalFee + (amountIn * feeBps pool) sdiv 10000)
                        0 r,
                route = r\<rparr>)"

section \<open>Paths through the pool graph\<close>

text \<open>
  The assets met when a token is sent through a list of pools, each pool giving the
  other one of its two tokens, and the amount that comes out when each pool's output is
  the next pool's input.
\<close>

fun walk :: "PublicKey \<Rightarrow> PoolInfo list \<Rightarrow> PublicKey list option" where
  "walk t [] = Some [t]"
| "walk t (p # ps) =
     (case getOtherToken p t of
        None \<Rightarrow> None
      | Some u \<Rightarrow> map_option ((#) t) (walk u ps))"

fun replay :: "PublicKey \<Rightarrow> int \<Rightarrow> PoolInfo list \<Rightarrow> int option" where
  "replay t a [] = Some a"
| "replay t a (p # ps) =
     (case getOtherToken p t of
        None \<Rightarrow> None
      | Some u \<Rightarrow>
          (case getOutputAmount p t a of
             None \<Rightarrow> None
           | Some out \<Rightarrow> replay u out ps))"

text \<open>
  The asset sequence implied by a route of pool addresses: each address is looked up in
  the snapshot (the first pool with that address, as \<open>pools.find\<close> does).
\<close>

fun route_assets :: "PoolInfo list \<Rightarrow> PublicKey \<Rightarrow> PublicKey list \<Rightarrow> PublicKey list option" where
  "route_assets snapshot t [] = Some [t]"
| "route_assets snapshot t (a # r) =
     (case find (\<lambda>p. address p = a) snapshot of
        None \<Rightarrow> None
      | Some p \<Rightarrow>
          (case getOtherToken p t of
             None \<Rightarrow> None
           | Some u \<Rightarrow> map_option ((#) t) (route_assets snapshot u r)))"

section \<open>The invariant of the search\<close>

text \<open>
  A node of the open list was reached from the input asset through pools \<open>ps\<close> of the
  snapshot, meeting the assets \<open>as\<close>: its path holds the pools' addresses, its hop
  count is their number, the assets are pairwise distinct, its amount is the compounded
  output (nonzero and within the hop bound after the first hop), and every asset before
  the last one has been expanded already.
\<close>

definition reaches ::
  "AStarPathfinder \<Rightarrow> PublicKey \<Rightarrow> int \<Rightarrow> PoolInfo list \<Rightarrow> PublicKey list \<Rightarrow> PathNode \<Rightarrow> bool" where
  "reaches pf inputMint amountIn ps as n =
     (set ps \<subseteq> set (pools pf) \<and> path n = map address ps \<and> hops n = int (length ps)
      \<and> walk inputMint ps = Some as \<and> last as = token n \<and> distinct as
      \<and> replay inputMint amountIn ps = Some (amountOut n)
      \<and> (ps \<noteq> [] \<longrightarrow> hops n \<le> maxHops pf \<and> amountOut n \<noteq> 0))"

definition node_ok :: "AStarPathfinder \<Rightarrow> PublicKey \<Rightarrow> int \<Rightarrow> PublicKey set \<Rightarrow> PathNode \<Rightarrow> bool" where
  "node_ok pf inputMint amountIn vis n =
     (\<exists>ps as. reaches pf inputMint amountIn ps as n \<and> set (butlast as) \<subseteq> vis)"

definition solution_ok ::
  "AStarPathfinder \<Rightarrow> PublicKey \<Rightarrow> PublicKey \<Rightarrow> int \<Rightarrow> RouteAmount \<Rightarrow> bool" where
  "solution_ok pf inputMint outputMint amountIn sol =
     (\<exists>ps as. set ps \<subseteq> set (pools pf) \<and> fst sol = map address ps \<and> ps \<noteq> []
        \<and> int (length ps) \<le> maxHops pf \<and> walk inputMint ps = Some as
        \<and> last as = outputMint \<and> distinct as
        \<and> replay inputMint amountIn ps = Some (snd sol) \<and> snd sol \<noteq> 0)"

definition search_inv ::
  "AStarPathfinder \<Rightarrow> PublicKey \<Rightarrow> PublicKey \<Rightarrow> int \<Rightarrow> SearchState \<Rightarrow> bool" where
  "search_inv pf inputMint outputMint amountIn st =
     ((\<forall>n \<in> set (openSet st). node_ok pf inputMint amountIn (visited st) n)
      \<and> (\<forall>sol. bestSolution st = Some sol \<longrightarrow> solution_ok pf inputMint outputMint amountIn sol))"

section \<open>The pools of the test suite (pathfinding.test.ts)\<close>

text \<open>The tokens A, B and C are 1, 2 and 3; the pool addresses are 101, 102 and 103.\<close>

definition pool1 :: PoolInfo where
  "pool1 = \<lparr>address = 101, tokenA = 1, tokenB = 2, feeBps = 30,
            reserveA = 1000000, reserveB = 2000000\<rparr>"

definition pool2 :: PoolInfo where
  "pool2 = \<lparr>address = 102, tokenA = 2, tokenB = 3, feeBps = 30,
            reserveA = 2000000, reserveB = 3000000\<rparr>"

definition pool3 :: PoolInfo where
  "pool3 = \<lparr>address = 103, tokenA = 1, tokenB = 3, feeBps = 50,
            reserveA = 1000000, reserveB = 2500000\<rparr>"

section \<open>The quote in the words of the specification\<close>

text \<open>
  The total fee in the words of the specification: the route is replayed hop by hop and
  each hop charges its fee rate on the amount entering its pool.
\<close>

fun spec_totalFee :: "PoolInfo list \<Rightarrow> PublicKey \<Rightarrow> int \<Rightarrow> PublicKey list \<Rightarrow> int option" where
  "spec_totalFee snapshot t a [] = Some 0"
| "spec_totalFee snapshot t a (addr # r) =
     (case find (\<lambda>p. address p = addr) snapshot of
        None \<Rightarrow> None
      | Some p \<Rightarrow>
          (case getOtherToken p t of
             None \<Rightarrow> None
           | Some u \<Rightarrow>
               (case getOutputAmount p t a of
                  None \<Rightarrow> None
                | Some out \<Rightarrow>
                    map_option ((+) ((a * feeBps p) div 10000)) (spec_totalFee snapshot u out r))))"

text \<open>
  The price impact in the words of the specification: the shortfall, in percent, of the
  realized price \<open>finalOutput / amountIn\<close> against the first pool's spot price
  \<open>reserveOut / reserveIn\<close>.
\<close>

definition spec_priceImpact :: "PoolInfo \<Rightarrow> PublicKey \<Rightarrow> int \<Rightarrow> int \<Rightarrow> real" where
  "spec_priceImpact firstPool inputMint amountIn finalOutput =
     (1 - (real_of_int finalOutput / real_of_int amountIn)
          / (real_of_int (reserveOut firstPool inputMint) / real_of_int (reserveIn firstPool inputMint)))
     * 100"

text \<open>What \<open>getSwapQuote\<close> charges for one address of the route, on well-formed pools.\<close>

definition hop_fee :: "PoolInfo list \<Rightarrow> int \<Rightarrow> PublicKey \<Rightarrow> int" where
  "hop_fee snapshot amountIn poolAddress =
     (case find (\<lambda>p. address p = poolAddress) snapshot of
        None \<Rightarrow> 0
      | Some pool \<Rightarrow> (amountIn * feeBps pool) div 10000)"

section \<open>Pricing: properties\<close>

lemma sdiv_nonneg_eq_div:
  fixes a b :: int
  assumes "0 \<le> a" and "0 \<le> b"
  shows "a sdiv b = a div b"
  using assms by (cases "a = 0"; cases "b = 0") (simp_all add: signed_divide_int_def sgn_if)

lemma getOutputAmount_eq:
  "getOutputAmount pool inputMint amountIn =
     (if inputMint \<noteq> tokenA pool \<and> inputMint \<noteq> tokenB pool then None
      else if denominator pool inputMint amountIn = 0 then None
      else Some ((amountIn * (10000 - feeBps pool) * reserveOut pool inputMint)
                   sdiv denominator pool inputMint amountIn))"
  by (simp add: getOutputAmount_def denominator_def reserveIn_def reserveOut_def Let_def)

lemma PoolInfoState_getOutputAmount_eq:
  "PoolInfoState_getOutputAmount pool inputMint amountIn =
     (if inputMint \<noteq> tokenA pool \<and> inputMint \<noteq> tokenB pool then Inr None
      else if denominator pool inputMint amountIn = 0 then Inl AssertionFailed
      else Inr (Some ((amountIn * (10000 - feeBps pool) * reserveOut pool inputMint)
                   sdiv denominator pool inputMint amountIn)))"
  by (simp add: PoolInfoState_getOutputAmount_def denominator_def reserveIn_def reserveOut_def Let_def)

lemma numerator_nonneg:
  assumes "wf_pool pool" and "0 \<le> amountIn"
  shows "0 \<le> amountIn * (10000 - feeBps pool) * reserveOut pool inputMint"
  using assms by (simp add: wf_pool_def reserveOut_def)

lemma denominator_nonneg:
  assumes "wf_pool pool" and "0 \<le> amountIn"
  shows "0 \<le> denominator pool inputMint amountIn"
  using assms by (simp add: wf_pool_def denominator_def reserveIn_def)

lemma getOutputAmount_nonneg:
  assumes "wf_pool pool" and "0 \<le> amountIn" and "getOutputAmount pool inputMint amountIn = Some out"
  shows "0 \<le> out"
proof -
  have "out = (amountIn * (10000 - feeBps pool) * reserveOut pool inputMint)
                div denominator pool inputMint amountIn"
    using assms(3) sdiv_nonneg_eq_div [OF numerator_nonneg [OF assms(1,2)] denominator_nonneg [OF assms(1,2)]]
    by (auto simp: getOutputAmount_eq split: if_splits)
  then show ?thesis
    using numerator_nonneg [OF assms(1,2)] denominator_nonneg [OF assms(1,2)]
    by (simp add: pos_imp_zdiv_nonneg_iff div_int_pos_iff)
qed

text \<open>
  C2 (as stated, refuted): a pool whose output reserve is zero still prices a trade, at
  0, and a pool whose input reserve is zero pays out its whole output reserve.
\<close>

theorem zero_reserve_counterexample:
  "getOutputAmount \<lparr>address = 101, tokenA = 1, tokenB = 2, feeBps = 30,
                     reserveA = 1000000, reserveB = 0\<rparr> 1 1000 = Some 0
   \<and> getOutputAmount \<lparr>address = 101, tokenA = 1, tokenB = 2, feeBps = 30,
                     reserveA = 0, reserveB = 2000000\<rparr> 1 1000 = Some 2000000"
  by (simp add: getOutputAmount_def signed_divide_int_def)

text \<open>
  C2 (amended): for a well-formed pool and a non-negative input amount,
  \<open>getOutputAmount\<close> returns none exactly when the input asset is neither of the
  pool's assets or the denominator is zero, that is, when the input reserve and the
  input amount are both zero; \<open>PoolInfoState.getOutputAmount\<close> returns none exactly
  when the input asset is neither of the pool's assets.
\<close>

theorem getOutputAmount_none_iff:
  assumes "wf_pool pool" and "0 \<le> amountIn"
  shows "(getOutputAmount pool inputMint amountIn = None) =
           ((inputMint \<noteq> tokenA pool \<and> inputMint \<noteq> tokenB pool)
            \<or> (reserveIn pool inputMint = 0 \<and> amountIn = 0))
         \<and> (PoolInfoState_getOutputAmount pool inputMint amountIn = Inr None) =
           (inputMint \<noteq> tokenA pool \<and> inputMint \<noteq> tokenB pool)"
proof -
  have ff: "0 < 10000 - feeBps pool"
    using assms(1) by (simp add: wf_pool_def)
  have r: "0 \<le> reserveIn pool inputMint"
    using assms(1) by (simp add: wf_pool_def reserveIn_def)
  have "(denominator pool inputMint amountIn = 0) = (reserveIn pool inputMint = 0 \<and> amountIn = 0)"
  proof
    assume d: "denominator pool inputMint amountIn = 0"
    have a: "0 \<le> amountIn * (10000 - feeBps pool)"
      using assms(2) ff by simp
    have "reserveIn pool inputMint * 10000 + amountIn * (10000 - feeBps pool) = 0"
      using d by (simp add: denominator_def)
    with a r have "reserveIn pool inputMint = 0" and "amountIn * (10000 - feeBps pool) = 0"
      by linarith+
    with ff show "reserveIn pool inputMint = 0 \<and> amountIn = 0" by simp
  next
    assume "reserveIn pool inputMint = 0 \<and> amountIn = 0"
    then show "denominator pool inputMint amountIn = 0" by (simp add: denominator_def)
  qed
  then have d: "(denominator pool inputMint amountIn = 0) = (reserveIn pool inputMint = 0 \<and> amountIn = 0)" .
  show ?thesis
  proof (cases "inputMint \<noteq> tokenA pool \<and> inputMint \<noteq> tokenB pool")
    case True
    then show ?thesis
      by (simp add: getOutputAmount_eq PoolInfoState_getOutputAmount_eq)
  next
    case False
    then have g: "(getOutputAmount pool inputMint amountIn = None) = (denominator pool inputMint amountIn = 0)"
      and s: "(PoolInfoState_getOutputAmount pool inputMint amountIn = Inr None) = False"
      unfolding getOutputAmount_eq PoolInfoState_getOutputAmount_eq by (simp_all only: if_False split: if_splits) simp_all
    from False have n: "(inputMint \<noteq> tokenA pool \<and> inputMint \<noteq> tokenB pool) = False"
      by simp
    show ?thesis
      unfolding g s d n by simp
  qed
qed

theorem getOutputAmount_none_iff_witness:
  "wf_pool \<lparr>address = 101, tokenA = 1, tokenB = 2, feeBps = 30, reserveA = 0, reserveB = 0\<rparr>
   \<and> getOutputAmount \<lparr>address = 101, tokenA = 1, tokenB = 2, feeBps = 30,
                       reserveA = 0, reserveB = 0\<rparr> 1 0 = None
   \<and> getOutputAmount \<lparr>address = 101, tokenA = 1, tokenB = 2, feeBps = 30,
                       reserveA = 0, reserveB = 0\<rparr> 3 5 = None"
proof -
  let ?p = "\<lparr>address = 101, tokenA = 1, tokenB = 2, feeBps = 30, reserveA = 0, reserveB = 0\<rparr>"
  have w: "wf_pool ?p" by (simp add: wf_pool_def)
  show ?thesis
    using w getOutputAmount_none_iff [OF w, of 0 1] getOutputAmount_none_iff [OF w, of 5 3]
    by (simp add: reserveIn_def)
qed

text \<open>
  C3: for a well-formed pool holding the input asset, a non-negative input amount and a
  nonzero denominator, both \<open>getOutputAmount\<close> functions return the floor of
  \<open>amountIn \<times> (10000 \<minus> feeBps) \<times> reserveOut / (reserveIn \<times> 10000 + amountIn \<times> (10000 \<minus> feeBps))\<close>,
  which is 0 for the input amount 0; for an asset that is neither of the pool's two,
  they return none.
\<close>

theorem getOutputAmount_formula:
  assumes "wf_pool pool" and "0 \<le> amountIn"
  shows "((inputMint = tokenA pool \<or> inputMint = tokenB pool)
            \<and> denominator pool inputMint amountIn \<noteq> 0 \<longrightarrow>
          getOutputAmount pool inputMint amountIn =
            Some ((amountIn * (10000 - feeBps pool) * reserveOut pool inputMint)
                    div (reserveIn pool inputMint * 10000 + amountIn * (10000 - feeBps pool)))
          \<and> PoolInfoState_getOutputAmount pool inputMint amountIn =
            Inr (Some ((amountIn * (10000 - feeBps pool) * reserveOut pool inputMint)
                    div (reserveIn pool inputMint * 10000 + amountIn * (10000 - feeBps pool)))))
         \<and> ((inputMint = tokenA pool \<or> inputMint = tokenB pool)
            \<and> denominator pool inputMint 0 \<noteq> 0 \<longrightarrow>
          getOutputAmount pool inputMint 0 = Some 0
          \<and> PoolInfoState_getOutputAmount pool inputMint 0 = Inr (Some 0))
         \<and> (inputMint \<noteq> tokenA pool \<and> inputMint \<noteq> tokenB pool \<longrightarrow>
          getOutputAmount pool inputMint amountIn = None
          \<and> PoolInfoState_getOutputAmount pool inputMint amountIn = Inr None)"
proof -
  have "(amountIn * (10000 - feeBps pool) * reserveOut pool inputMint)
          sdiv denominator pool inputMint amountIn
        = (amountIn * (10000 - feeBps pool) * reserveOut pool inputMint)
          div denominator pool inputMint amountIn"
    by (rule sdiv_nonneg_eq_div [OF numerator_nonneg [OF assms] denominator_nonneg [OF assms]])
  then show ?thesis
    by (auto simp: getOutputAmount_eq PoolInfoState_getOutputAmount_eq denominator_def)
qed

theorem getOutputAmount_formula_witness:
  "wf_pool \<lparr>address = 101, tokenA = 1, tokenB = 2, feeBps = 30,
             reserveA = 1000000, reserveB = 2000000\<rparr>
   \<and> getOutputAmount \<lparr>address = 101, tokenA = 1, tokenB = 2, feeBps = 30,
                       reserveA = 1000000, reserveB = 2000000\<rparr> 1 1000 = Some 1992
   \<and> getOutputAmount \<lparr>address = 101, tokenA = 1, tokenB = 2, feeBps = 30,
                       reserveA = 1000000, reserveB = 2000000\<rparr> 2 1000 = Some 498
   \<and> getOutputAmount \<lparr>address = 101, tokenA = 1, tokenB = 2, feeBps = 30,
                       reserveA = 1000000, reserveB = 2000000\<rparr> 1 0 = Some 0
   \<and> getOutputAmount \<lparr>address = 101, tokenA = 1, tokenB = 2, feeBps = 30,
                       reserveA = 1000000, reserveB = 2000000\<rparr> 3 1000 = None"
proof -
  let ?p = "\<lparr>address = 101, tokenA = 1, tokenB = 2, feeBps = 30,
             reserveA = 1000000, reserveB = 2000000\<rparr>"
  have w: "wf_pool ?p" by (simp add: wf_pool_def)
  show ?thesis
    using w getOutputAmount_formula [OF w, of 1000 1] getOutputAmount_formula [OF w, of 1000 2]
      getOutputAmount_formula [OF w, of 1000 3]
    by (simp add: reserveIn_def reserveOut_def denominator_def)
qed

section \<open>Route search: the invariant holds\<close>

lemma walk_shape: "walk t ps = Some as \<Longrightarrow> length as = Suc (length ps) \<and> hd as = t"
proof (induction ps arbitrary: t as)
  case Nil
  then show ?case by auto
next
  case (Cons p ps)
  then show ?case by (auto split: option.splits)
qed

lemma walk_snoc:
  "walk t ps = Some as \<Longrightarrow> getOtherToken p (last as) = Some u \<Longrightarrow> walk t (ps @ [p]) = Some (as @ [u])"
proof (induction ps arbitrary: t as)
  case Nil
  then show ?case by auto
next
  case (Cons q qs)
  from Cons.prems(1) obtain v bs where v: "getOtherToken q t = Some v"
    and bs: "walk v qs = Some bs" and as: "as = t # bs"
    by (auto split: option.splits)
  from walk_shape [OF bs] have "bs \<noteq> []" by auto
  with as Cons.prems(2) have "getOtherToken p (last bs) = Some u" by simp
  from Cons.IH [OF bs this] v as show ?case by simp
qed

lemma replay_snoc:
  "walk t ps = Some as \<Longrightarrow> replay t a ps = Some b \<Longrightarrow> getOtherToken p (last as) = Some u
   \<Longrightarrow> getOutputAmount p (last as) b = Some out \<Longrightarrow> replay t a (ps @ [p]) = Some out"
proof (induction ps arbitrary: t a as)
  case Nil
  then show ?case by auto
next
  case (Cons q qs)
  from Cons.prems(1) obtain v bs where v: "getOtherToken q t = Some v"
    and bs: "walk v qs = Some bs" and as: "as = t # bs"
    by (auto split: option.splits)
  from Cons.prems(2) v obtain c where c: "getOutputAmount q t a = Some c"
    and r: "replay v c qs = Some b"
    by (auto split: option.splits)
  from walk_shape [OF bs] have "bs \<noteq> []" by auto
  with as Cons.prems(3,4) have "getOtherToken p (last bs) = Some u"
    and "getOutputAmount p (last bs) b = Some out" by simp_all
  from Cons.IH [OF bs r this] v c show ?case by simp
qed

lemma node_ok_mono: "node_ok pf i a vis n \<Longrightarrow> vis \<subseteq> vis' \<Longrightarrow> node_ok pf i a vis' n"
  unfolding node_ok_def by blast

lemma bestSolution_explore: "bestSolution (explore current st pool) = bestSolution st"
  by (simp add: explore_def split: option.splits)

lemma bestSolution_foldl_explore: "bestSolution (foldl (explore current) st qs) = bestSolution st"
  by (induction qs arbitrary: st) (simp_all add: bestSolution_explore)

lemma visited_foldl_explore: "visited (foldl (explore current) st qs) = visited st"
  by (induction qs arbitrary: st) (simp_all add: visited_explore)

lemma explore_node_ok:
  assumes cur: "reaches pf i a ps as current"
    and vis: "set as \<subseteq> visited st"
    and lt: "hops current < maxHops pf"
    and mem: "pool \<in> set (pools pf)"
    and old: "\<forall>n \<in> set (openSet st). node_ok pf i a (visited st) n"
  shows "\<forall>n \<in> set (openSet (explore current st pool)). node_ok pf i a (visited st) n"
proof (cases "\<exists>u out. getOtherToken pool (token current) = Some u \<and> u \<notin> visited st
                \<and> getOutputAmount pool (token current) (amountOut current) = Some out \<and> out \<noteq> 0
                \<and> shouldExplore (bestRoutes st u) out (hops current)")
  case False
  then have "explore current st pool = st"
    by (auto simp: explore_def split: option.splits)
  with old show ?thesis by simp
next
  case True
  then obtain u out where u: "getOtherToken pool (token current) = Some u"
    and nv: "u \<notin> visited st"
    and out: "getOutputAmount pool (token current) (amountOut current) = Some out"
    and nz: "out \<noteq> 0"
    and se: "shouldExplore (bestRoutes st u) out (hops current)"
    by blast
  let ?n = "\<lparr>token = u, cost = 2 ^ 64 - out, hops = hops current + 1,
             path = path current @ [address pool], amountOut = out\<rparr>"
  have ex: "openSet (explore current st pool) = openSet st @ [?n]"
    using u nv out nz se by (simp add: explore_def)
  from cur have w: "walk i ps = Some as" and l: "last as = token current"
    and d: "distinct as" and r: "replay i a ps = Some (amountOut current)"
    and sub: "set ps \<subseteq> set (pools pf)" and p: "path current = map address ps"
    and h: "hops current = int (length ps)"
    by (simp_all add: reaches_def)
  have "u \<notin> set as" using nv vis by blast
  then have d': "distinct (as @ [u])" using d by simp
  have "reaches pf i a (ps @ [pool]) (as @ [u]) ?n"
    unfolding reaches_def
    using walk_snoc [OF w, of pool u] replay_snoc [OF w r, of pool u out] u out l d' sub mem p h lt nz
    by simp
  moreover have "set (butlast (as @ [u])) \<subseteq> visited st" using vis by simp
  ultimately have "node_ok pf i a (visited st) ?n"
    unfolding node_ok_def by blast
  with old ex show ?thesis by simp
qed

lemma foldl_explore_node_ok:
  assumes cur: "reaches pf i a ps as current"
    and lt: "hops current < maxHops pf"
  shows "set qs \<subseteq> set (pools pf) \<Longrightarrow> set as \<subseteq> visited st
     \<Longrightarrow> \<forall>n \<in> set (openSet st). node_ok pf i a (visited st) n
     \<Longrightarrow> \<forall>n \<in> set (openSet (foldl (explore current) st qs)). node_ok pf i a (visited st) n"
proof (induction qs arbitrary: st)
  case Nil
  then show ?case by simp
next
  case (Cons q qs)
  have q: "q \<in> set (pools pf)" and qs: "set qs \<subseteq> set (pools pf)"
    using Cons.prems(1) by simp_all
  have step: "\<forall>n \<in> set (openSet (explore current st q)). node_ok pf i a (visited (explore current st q)) n"
    using explore_node_ok [OF cur Cons.prems(2) lt q Cons.prems(3)] by (simp add: visited_explore)
  have vis: "set as \<subseteq> visited (explore current st q)"
    using Cons.prems(2) by (simp add: visited_explore)
  from Cons.IH [OF qs vis step] show ?case by (simp add: visited_explore)
qed

lemma reaches_solution:
  assumes "reaches pf i a ps as n" and "token n = outputMint" and "i \<noteq> outputMint"
  shows "solution_ok pf i outputMint a (path n, amountOut n)"
proof -
  from assms(1) have w: "walk i ps = Some as" and l: "last as = token n"
    by (simp_all add: reaches_def)
  have "ps \<noteq> []"
  proof
    assume "ps = []"
    with w have "as = [i]" by simp
    with l assms(2,3) show False by simp
  qed
  with assms(1,2) have "set ps \<subseteq> set (pools pf) \<and> fst (path n, amountOut n) = map address ps \<and> ps \<noteq> []
        \<and> int (length ps) \<le> maxHops pf \<and> walk i ps = Some as
        \<and> last as = outputMint \<and> distinct as
        \<and> replay i a ps = Some (snd (path n, amountOut n)) \<and> snd (path n, amountOut n) \<noteq> 0"
    by (simp add: reaches_def)
  then show ?thesis
    unfolding solution_ok_def by blast
qed

lemma visit_cases:
  "visit pf outputMint current st = st
   \<or> (token current = outputMint
      \<and> visit pf outputMint current st = st\<lparr>bestSolution := Some (path current, amountOut current)\<rparr>)
   \<or> (hops current < maxHops pf
      \<and> visit pf outputMint current st =
          foldl (explore current) (st\<lparr>visited := insert (token current) (visited st)\<rparr>) (pools pf))"
  by (simp add: visit_def)

lemma set_butlast_last: "as \<noteq> [] \<Longrightarrow> set as = insert (last as) (set (butlast as))"
proof -
  assume "as \<noteq> []"
  then have "as = butlast as @ [last as]" by simp
  then have "set as = set (butlast as @ [last as])" by simp
  then show ?thesis by simp
qed

lemma visit_inv:
  assumes inv: "search_inv pf i outputMint a st"
    and cur: "node_ok pf i a (visited st) current"
    and ne: "i \<noteq> outputMint"
  shows "search_inv pf i outputMint a (visit pf outputMint current st)"
proof -
  from cur obtain ps as where r: "reaches pf i a ps as current"
    and b: "set (butlast as) \<subseteq> visited st"
    unfolding node_ok_def by blast
  consider (skip) "visit pf outputMint current st = st"
    | (found) "token current = outputMint"
        "visit pf outputMint current st = st\<lparr>bestSolution := Some (path current, amountOut current)\<rparr>"
    | (expand) "hops current < maxHops pf"
        "visit pf outputMint current st =
           foldl (explore current) (st\<lparr>visited := insert (token current) (visited st)\<rparr>) (pools pf)"
    using visit_cases [of pf outputMint current st] by blast
  then show ?thesis
  proof cases
    case skip
    with inv show ?thesis by simp
  next
    case found
    have "solution_ok pf i outputMint a (path current, amountOut current)"
      by (rule reaches_solution [OF r found(1) ne])
    with inv show ?thesis
      unfolding found(2) search_inv_def by simp
  next
    case expand
    let ?st = "st\<lparr>visited := insert (token current) (visited st)\<rparr>"
    from r have w: "walk i ps = Some as" and l: "last as = token current"
      by (simp_all add: reaches_def)
    from walk_shape [OF w] have "as \<noteq> []" by auto
    from set_butlast_last [OF this] b l have vis: "set as \<subseteq> visited ?st" by auto
    have old: "\<forall>n \<in> set (openSet ?st). node_ok pf i a (visited ?st) n"
    proof
      fix n assume "n \<in> set (openSet ?st)"
      then have "node_ok pf i a (visited st) n"
        using inv by (simp add: search_inv_def)
      then show "node_ok pf i a (visited ?st) n"
        by (rule node_ok_mono) auto
    qed
    have new: "\<forall>n \<in> set (openSet (foldl (explore current) ?st (pools pf))). node_ok pf i a (visited ?st) n"
      by (rule foldl_explore_node_ok [OF r expand(1) subset_refl vis old])
    have sol: "\<forall>sol. bestSolution st = Some sol \<longrightarrow> solution_ok pf i outputMint a sol"
      using inv unfolding search_inv_def by blast
    show ?thesis
      unfolding expand(2) search_inv_def bestSolution_foldl_explore visited_foldl_explore
      using new sol by simp
  qed
qed

lemma iterate_inv:
  assumes inv: "search_inv pf i outputMint a st" and ne: "i \<noteq> outputMint"
  shows "search_inv pf i outputMint a (iterate pf outputMint st)"
proof (cases "sort_key (\<lambda>n. (cost n, hops n)) (openSet st)")
  case Nil
  with inv show ?thesis by (simp add: iterate_def)
next
  case (Cons current rest)
  have "set (sort_key (\<lambda>n. (cost n, hops n)) (openSet st)) = set (openSet st)"
    by simp
  then have "set (current # rest) = set (openSet st)"
    unfolding Cons .
  then have c: "current \<in> set (openSet st)" and rs: "set rest \<subseteq> set (openSet st)"
    by auto
  have inv': "search_inv pf i outputMint a (st\<lparr>openSet := rest\<rparr>)"
    using inv rs by (auto simp: search_inv_def)
  have "node_ok pf i a (visited (st\<lparr>openSet := rest\<rparr>)) current"
    using inv c by (simp add: search_inv_def)
  from visit_inv [OF inv' this ne] Cons show ?thesis
    by (simp add: iterate_def)
qed

lemma search_sound:
  "search_inv pf i outputMint a st \<Longrightarrow> i \<noteq> outputMint \<Longrightarrow> search pf outputMint st = Some sol
   \<Longrightarrow> solution_ok pf i outputMint a sol"
proof (induction pf outputMint st rule: search.induct)
  case (1 pf outputMint st)
  show ?case
  proof (cases "openSet st = []")
    case True
    with "1.prems"(3) have "bestSolution st = Some sol"
      using search.simps [of pf outputMint st] by simp
    with "1.prems"(1) show ?thesis unfolding search_inv_def by blast
  next
    case False
    then have "search pf outputMint (iterate pf outputMint st) = Some sol"
      using "1.prems"(3) search.simps [of pf outputMint st] by simp
    from "1.IH" [OF False iterate_inv [OF "1.prems"(1,2)] "1.prems"(2) this] show ?thesis .
  qed
qed

lemma findOptimalRoute_sound:
  assumes "findOptimalRoute pf i outputMint a = Some sol"
  shows "solution_ok pf i outputMint a sol"
proof -
  let ?st = "\<lparr>openSet = [\<lparr>token = i, cost = 0, hops = 0, path = [], amountOut = a\<rparr>],
              visited = {}, bestRoutes = [i \<mapsto> (a, 0)], bestSolution = None\<rparr>"
  from assms have ne: "i \<noteq> outputMint" and s: "search pf outputMint ?st = Some sol"
    by (simp_all add: findOptimalRoute_def split: if_splits)
  have "reaches pf i a [] [i] \<lparr>token = i, cost = 0, hops = 0, path = [], amountOut = a\<rparr>"
    by (simp add: reaches_def)
  moreover have "set (butlast [i]) \<subseteq> {}" by simp
  ultimately have "node_ok pf i a {} \<lparr>token = i, cost = 0, hops = 0, path = [], amountOut = a\<rparr>"
    unfolding node_ok_def by blast
  then have "search_inv pf i outputMint a ?st"
    by (simp add: search_inv_def)
  from search_sound [OF this ne s] show ?thesis .
qed

section \<open>Route search: properties of the result\<close>

lemma solution_length:
  assumes "solution_ok pf i outputMint a (r, out)"
  shows "r \<noteq> [] \<and> int (length r) \<le> maxHops pf \<and> out \<noteq> 0"
  using assms unfolding solution_ok_def by auto

lemma walk_single:
  assumes "walk i ps = Some as" and "ps \<noteq> []" and "length ps \<le> 1"
  shows "\<exists>p. ps = [p] \<and> getOtherToken p i = Some (last as)"
proof -
  from assms(2,3) obtain p where p: "ps = [p]"
    by (cases ps) auto
  with assms(1) show ?thesis by (auto split: option.splits)
qed

text \<open>
  C5: a route returned for the requested bound \<open>h\<close> has at most \<open>h\<close> pools (and at
  most 5); with the bound 1, when no pool of the snapshot joins the input asset to the
  output asset directly, the search returns none.
\<close>

theorem hop_budget_respected:
  "(findOptimalRoute (AStarPathfinder_new ps h) i outputMint a = Some (r, out) \<longrightarrow>
      int (length r) \<le> h \<and> length r \<le> 5)
   \<and> ((\<forall>p \<in> set ps. getOtherToken p i \<noteq> Some outputMint) \<longrightarrow>
      findOptimalRoute (AStarPathfinder_new ps 1) i outputMint a = None)"
proof (intro conjI impI)
  assume "findOptimalRoute (AStarPathfinder_new ps h) i outputMint a = Some (r, out)"
  from solution_length [OF findOptimalRoute_sound [OF this]]
  have "int (length r) \<le> min h 5" by (simp add: AStarPathfinder_new_def)
  then show "int (length r) \<le> h" and "length r \<le> 5" by simp_all
next
  assume direct: "\<forall>p \<in> set ps. getOtherToken p i \<noteq> Some outputMint"
  show "findOptimalRoute (AStarPathfinder_new ps 1) i outputMint a = None"
  proof (rule ccontr)
    assume "findOptimalRoute (AStarPathfinder_new ps 1) i outputMint a \<noteq> None"
    then obtain sol where "findOptimalRoute (AStarPathfinder_new ps 1) i outputMint a = Some sol"
      by blast
    from findOptimalRoute_sound [OF this] obtain qs as where sub: "set qs \<subseteq> set ps"
      and ne: "qs \<noteq> []" and len: "int (length qs) \<le> 1" and w: "walk i qs = Some as"
      and l: "last as = outputMint"
      unfolding solution_ok_def by (auto simp: AStarPathfinder_new_def)
    from len have "length qs \<le> 1" by simp
    from walk_single [OF w ne this] l obtain p where "qs = [p]"
      and "getOtherToken p i = Some outputMint" by blast
    with sub direct show False by simp
  qed
qed

theorem hop_budget_respected_witness:
  "findOptimalRoute (AStarPathfinder_new [pool1, pool2] 3) 1 3 1000 = Some ([101, 102], 2976)
   \<and> int (length [101, 102 :: PublicKey]) \<le> 3
   \<and> getOtherToken pool1 1 \<noteq> Some 3 \<and> getOtherToken pool2 1 \<noteq> Some 3
   \<and> findOptimalRoute (AStarPathfinder_new [pool1, pool2] 1) 1 3 1000 = None"
proof -
  have e: "findOptimalRoute (AStarPathfinder_new [pool1, pool2] 3) 1 3 1000 = Some ([101, 102], 2976)"
    by code_simp
  have d: "\<forall>p \<in> set [pool1, pool2]. getOtherToken p 1 \<noteq> Some 3"
    by (simp add: getOtherToken_def pool1_def pool2_def)
  from e d hop_budget_respected [of "[pool1, pool2]" 3 1 3 1000 "[101, 102]" 2976]
    hop_budget_respected [of "[pool1, pool2]" 1 1 3 1000 "[101, 102]" 2976]
  show ?thesis by simp
qed

lemma find_address:
  "distinct (map address snapshot) \<Longrightarrow> q \<in> set snapshot
   \<Longrightarrow> find (\<lambda>p. address p = address q) snapshot = Some q"
proof (induction snapshot)
  case Nil
  then show ?case by simp
next
  case (Cons p snapshot)
  then show ?case by (cases "address p = address q") (auto simp: image_iff)
qed

lemma route_assets_walk:
  assumes "distinct (map address snapshot)"
  shows "set qs \<subseteq> set snapshot \<Longrightarrow> walk t qs = Some as
     \<Longrightarrow> route_assets snapshot t (map address qs) = Some as"
proof (induction qs arbitrary: t as)
  case Nil
  then show ?case by simp
next
  case (Cons q qs)
  from Cons.prems(1) have q: "q \<in> set snapshot" and qs: "set qs \<subseteq> set snapshot"
    by simp_all
  from Cons.prems(2) obtain u bs where u: "getOtherToken q t = Some u"
    and bs: "walk u qs = Some bs" and as: "as = t # bs"
    by (auto split: option.splits)
  from Cons.IH [OF qs bs] find_address [OF assms q] u as show ?case by simp
qed

text \<open>
  C6: a returned route is the address list of pools of the snapshot that lead from the
  input asset to the output asset through pairwise distinct assets; when the pool
  addresses of the snapshot are distinct, this is the asset sequence obtained by looking
  each address of the route up in the snapshot.
\<close>

theorem route_is_simple:
  assumes "findOptimalRoute (AStarPathfinder_new ps h) i outputMint a = Some (r, out)"
  shows "\<exists>qs as. set qs \<subseteq> set ps \<and> map address qs = r \<and> walk i qs = Some as
           \<and> distinct as \<and> hd as = i \<and> last as = outputMint
           \<and> (distinct (map address ps) \<longrightarrow> route_assets ps i r = Some as)"
proof -
  from findOptimalRoute_sound [OF assms] obtain qs as where sub: "set qs \<subseteq> set ps"
    and r: "r = map address qs" and w: "walk i qs = Some as"
    and l: "last as = outputMint" and d: "distinct as"
    unfolding solution_ok_def by (auto simp: AStarPathfinder_new_def)
  have "distinct (map address ps) \<longrightarrow> route_assets ps i r = Some as"
    using route_assets_walk [OF _ sub w] r by simp
  with sub r w d l walk_shape [OF w] show ?thesis by blast
qed

theorem route_is_simple_witness:
  "findOptimalRoute (AStarPathfinder_new [pool1, pool2, pool3] 3) 1 3 10000 = Some ([101, 102], 29237)
   \<and> distinct (map address [pool1, pool2, pool3])
   \<and> route_assets [pool1, pool2, pool3] 1 [101, 102] = Some [1, 2, 3]
   \<and> (\<exists>qs as. set qs \<subseteq> set [pool1, pool2, pool3] \<and> map address qs = [101, 102]
         \<and> walk 1 qs = Some as \<and> distinct as \<and> hd as = 1 \<and> last as = 3
         \<and> route_assets [pool1, pool2, pool3] 1 [101, 102] = Some as)"
proof -
  have d: "distinct (map address [pool1, pool2, pool3])"
    by (simp add: pool1_def pool2_def pool3_def)
  have e: "findOptimalRoute (AStarPathfinder_new [pool1, pool2, pool3] 3) 1 3 10000 = Some ([101, 102], 29237)"
    by code_simp
  have a: "route_assets [pool1, pool2, pool3] 1 [101, 102] = Some [1, 2, 3]"
    by code_simp
  from route_is_simple [OF e] d e a show ?thesis by simp
qed

lemma replay_nonneg:
  "\<forall>p \<in> set qs. wf_pool p \<Longrightarrow> 0 \<le> a \<Longrightarrow> replay t a qs = Some b \<Longrightarrow> 0 \<le> b"
proof (induction qs arbitrary: t a)
  case Nil
  then show ?case by simp
next
  case (Cons q qs)
  from Cons.prems(3) obtain u c where "getOtherToken q t = Some u"
    and c: "getOutputAmount q t a = Some c" and r: "replay u c qs = Some b"
    by (auto split: option.splits)
  from Cons.prems(1) have wq: "wf_pool q" and wqs: "\<forall>p \<in> set qs. wf_pool p" by simp_all
  from getOutputAmount_nonneg [OF wq Cons.prems(2) c] have "0 \<le> c" .
  from Cons.IH [OF wqs this r] show ?case .
qed

text \<open>
  C10: a returned route is not empty and the returned amount is not zero; for
  well-formed pools and a non-negative input amount the returned amount is strictly
  positive.
\<close>

theorem result_nonempty_positive:
  assumes "findOptimalRoute (AStarPathfinder_new ps h) i outputMint a = Some (r, out)"
  shows "r \<noteq> [] \<and> out \<noteq> 0 \<and> ((\<forall>p \<in> set ps. wf_pool p) \<and> 0 \<le> a \<longrightarrow> 0 < out)"
proof -
  from findOptimalRoute_sound [OF assms] obtain qs where sub: "set qs \<subseteq> set ps"
    and r: "r = map address qs" and ne: "qs \<noteq> []"
    and rp: "replay i a qs = Some out" and nz: "out \<noteq> 0"
    unfolding solution_ok_def by (auto simp: AStarPathfinder_new_def)
  have "0 < out" if w: "\<forall>p \<in> set ps. wf_pool p" and a: "0 \<le> a"
  proof -
    from sub w have "\<forall>p \<in> set qs. wf_pool p" by blast
    from replay_nonneg [OF this a rp] nz show ?thesis by simp
  qed
  with r ne nz show ?thesis by simp
qed

theorem result_nonempty_positive_witness:
  "wf_pool pool1
   \<and> findOptimalRoute (AStarPathfinder_new [pool1] 3) 1 2 1000 = Some ([101], 1992)
   \<and> [101 :: PublicKey] \<noteq> [] \<and> (0 :: int) < 1992"
proof -
  have w: "wf_pool pool1"
    by (simp add: wf_pool_def pool1_def)
  have e: "findOptimalRoute (AStarPathfinder_new [pool1] 3) 1 2 1000 = Some ([101], 1992)"
    by code_simp
  from result_nonempty_positive [OF e] w e show ?thesis by simp
qed

text \<open>
  C4 (as stated, refuted): a requested bound of 0 stays 0 and finds nothing where the
  bound 1 finds the direct route.
\<close>

theorem hop_clamp_counterexample:
  "maxHops (AStarPathfinder_new [pool1] 0) = 0
   \<and> findOptimalRoute (AStarPathfinder_new [pool1] 0) 1 2 1000 = None
   \<and> findOptimalRoute (AStarPathfinder_new [pool1] 1) 1 2 1000 = Some ([101], 1992)"
  by code_simp

text \<open>
  C4 (amended): the bound enforced is \<open>min maxHops 5\<close>: a request of 5 or more behaves
  as 5, a request from 1 to 5 is kept, and a request below 1 is not raised: the search
  then returns none.
\<close>

theorem hop_bound_clamped_above:
  "maxHops (AStarPathfinder_new ps h) = min h 5
   \<and> (5 \<le> h \<longrightarrow> findOptimalRoute (AStarPathfinder_new ps h) i outputMint a
                  = findOptimalRoute (AStarPathfinder_new ps 5) i outputMint a)
   \<and> (1 \<le> h \<and> h \<le> 5 \<longrightarrow> maxHops (AStarPathfinder_new ps h) = h)
   \<and> (h < 1 \<longrightarrow> findOptimalRoute (AStarPathfinder_new ps h) i outputMint a = None)"
proof (intro conjI impI)
  show "maxHops (AStarPathfinder_new ps h) = min h 5"
    by (simp add: AStarPathfinder_new_def)
next
  assume "5 \<le> h"
  then have "AStarPathfinder_new ps h = AStarPathfinder_new ps 5"
    by (simp add: AStarPathfinder_new_def)
  then show "findOptimalRoute (AStarPathfinder_new ps h) i outputMint a
               = findOptimalRoute (AStarPathfinder_new ps 5) i outputMint a"
    by simp
next
  assume "1 \<le> h \<and> h \<le> 5"
  then show "maxHops (AStarPathfinder_new ps h) = h"
    by (simp add: AStarPathfinder_new_def)
next
  assume low: "h < 1"
  show "findOptimalRoute (AStarPathfinder_new ps h) i outputMint a = None"
  proof (rule ccontr)
    assume "findOptimalRoute (AStarPathfinder_new ps h) i outputMint a \<noteq> None"
    then obtain r out where "findOptimalRoute (AStarPathfinder_new ps h) i outputMint a = Some (r, out)"
      by auto
    from solution_length [OF findOptimalRoute_sound [OF this]]
    have "r \<noteq> []" and "int (length r) \<le> min h 5"
      by (simp_all add: AStarPathfinder_new_def)
    with low show False by (cases r) simp_all
  qed
qed

theorem hop_bound_clamped_above_witness:
  "maxHops (AStarPathfinder_new [pool1, pool2] 7) = 5
   \<and> findOptimalRoute (AStarPathfinder_new [pool1, pool2] 7) 1 3 1000
       = findOptimalRoute (AStarPathfinder_new [pool1, pool2] 5) 1 3 1000
   \<and> maxHops (AStarPathfinder_new [pool1, pool2] 2) = 2
   \<and> findOptimalRoute (AStarPathfinder_new [pool1, pool2] (- 1)) 1 3 1000 = None"
  using hop_bound_clamped_above [of "[pool1, pool2]" 7 1 3 1000]
    hop_bound_clamped_above [of "[pool1, pool2]" 2 1 3 1000]
    hop_bound_clamped_above [of "[pool1, pool2]" "- 1" 1 3 1000]
  by simp

text \<open>
  C1 (the code at the failing inputs): with the bound 2 the two-hop path through pools
  103 and 104 yields 496, but the search returns none, because the better two-hop
  arrival at asset 3 replaces the best-known entry that the one-hop arrival needs and
  cannot be expanded itself.  With the bound 5 and other reserves, the search returns
  496 where the three-hop path through pools 101, 102 and 104 yields 892: asset 3 is
  expanded, and closed, with the amount 498 before the arrival with 896 is found.
\<close>

theorem optimality_fails:
  "findOptimalRoute (AStarPathfinder_new
      [\<lparr>address = 101, tokenA = 1, tokenB = 2, feeBps = 30, reserveA = 1000000, reserveB = 1000000\<rparr>,
       \<lparr>address = 102, tokenA = 2, tokenB = 3, feeBps = 30, reserveA = 1000000, reserveB = 1000000\<rparr>,
       \<lparr>address = 103, tokenA = 1, tokenB = 3, feeBps = 30, reserveA = 1000000, reserveB = 500000\<rparr>,
       \<lparr>address = 104, tokenA = 3, tokenB = 4, feeBps = 30, reserveA = 1000000, reserveB = 1000000\<rparr>] 2)
      1 4 1000 = None
   \<and> walk 1
      [\<lparr>address = 103, tokenA = 1, tokenB = 3, feeBps = 30, reserveA = 1000000, reserveB = 500000\<rparr>,
       \<lparr>address = 104, tokenA = 3, tokenB = 4, feeBps = 30, reserveA = 1000000, reserveB = 1000000\<rparr>]
      = Some [1, 3, 4]
   \<and> replay 1 1000
      [\<lparr>address = 103, tokenA = 1, tokenB = 3, feeBps = 30, reserveA = 1000000, reserveB = 500000\<rparr>,
       \<lparr>address = 104, tokenA = 3, tokenB = 4, feeBps = 30, reserveA = 1000000, reserveB = 1000000\<rparr>]
      = Some 496
   \<and> findOptimalRoute (AStarPathfinder_new
      [\<lparr>address = 101, tokenA = 1, tokenB = 2, feeBps = 30, reserveA = 1000000, reserveB = 10000\<rparr>,
       \<lparr>address = 102, tokenA = 2, tokenB = 3, feeBps = 30, reserveA = 10000, reserveB = 1000000\<rparr>,
       \<lparr>address = 103, tokenA = 1, tokenB = 3, feeBps = 30, reserveA = 1000000, reserveB = 500000\<rparr>,
       \<lparr>address = 104, tokenA = 3, tokenB = 4, feeBps = 30, reserveA = 1000000, reserveB = 1000000\<rparr>] 5)
      1 4 1000 = Some ([103, 104], 496)
   \<and> walk 1
      [\<lparr>address = 101, tokenA = 1, tokenB = 2, feeBps = 30, reserveA = 1000000, reserveB = 10000\<rparr>,
       \<lparr>address = 102, tokenA = 2, tokenB = 3, feeBps = 30, reserveA = 10000, reserveB = 1000000\<rparr>,
       \<lparr>address = 104, tokenA = 3, tokenB = 4, feeBps = 30, reserveA = 1000000, reserveB = 1000000\<rparr>]
      = Some [1, 2, 3, 4]
   \<and> replay 1 1000
      [\<lparr>address = 101, tokenA = 1, tokenB = 2, feeBps = 30, reserveA = 1000000, reserveB = 10000\<rparr>,
       \<lparr>address = 102, tokenA = 2, tokenB = 3, feeBps = 30, reserveA = 10000, reserveB = 1000000\<rparr>,
       \<lparr>address = 104, tokenA = 3, tokenB = 4, feeBps = 30, reserveA = 1000000, reserveB = 1000000\<rparr>]
      = Some 892"
  by code_simp

text \<open>
  C9 (the code at the failing input): one snapshot, asset pair and input amount give a
  route with the amount 496 under the bound 2 and none under the bound 3.
\<close>

theorem monotonicity_fails:
  "findOptimalRoute (AStarPathfinder_new
      [\<lparr>address = 101, tokenA = 1, tokenB = 4, feeBps = 30, reserveA = 1000000, reserveB = 500000\<rparr>,
       \<lparr>address = 102, tokenA = 1, tokenB = 2, feeBps = 30, reserveA = 1000000, reserveB = 1000000\<rparr>,
       \<lparr>address = 103, tokenA = 2, tokenB = 3, feeBps = 30, reserveA = 1000000, reserveB = 1000000\<rparr>,
       \<lparr>address = 104, tokenA = 3, tokenB = 4, feeBps = 30, reserveA = 1000000, reserveB = 1000000\<rparr>,
       \<lparr>address = 105, tokenA = 4, tokenB = 5, feeBps = 30, reserveA = 1000000, reserveB = 1000000\<rparr>] 2)
      1 5 1000 = Some ([101, 105], 496)
   \<and> findOptimalRoute (AStarPathfinder_new
      [\<lparr>address = 101, tokenA = 1, tokenB = 4, feeBps = 30, reserveA = 1000000, reserveB = 500000\<rparr>,
       \<lparr>address = 102, tokenA = 1, tokenB = 2, feeBps = 30, reserveA = 1000000, reserveB = 1000000\<rparr>,
       \<lparr>address = 103, tokenA = 2, tokenB = 3, feeBps = 30, reserveA = 1000000, reserveB = 1000000\<rparr>,
       \<lparr>address = 104, tokenA = 3, tokenB = 4, feeBps = 30, reserveA = 1000000, reserveB = 1000000\<rparr>,
       \<lparr>address = 105, tokenA = 4, tokenB = 5, feeBps = 30, reserveA = 1000000, reserveB = 1000000\<rparr>] 3)
      1 5 1000 = None"
  by code_simp

section \<open>Quotes: properties\<close>

text \<open>
  C7 (as stated, refuted): on the two-hop route of the test pools the quote's fee is
  3 + 3 = 6, each hop charged on the 1000 put in, where the replay charges 3 on 1000 and
  5 on the 1992 entering the second pool.
\<close>

theorem quote_fee_counterexample:
  "map_option route (getSwapQuote 1 3 1000 [pool1, pool2] 3) = Some [101, 102]
   \<and> map_option fee (getSwapQuote 1 3 1000 [pool1, pool2] 3) = Some 6
   \<and> spec_totalFee [pool1, pool2] 1 1000 [101, 102] = Some 8"
  by code_simp

lemma foldl_fee:
  assumes "\<forall>p \<in> set ps. wf_pool p" and "0 \<le> a"
  shows "foldl (\<lambda>totalFee poolAddress.
                  case find (\<lambda>p. address p = poolAddress) ps of
                    None \<Rightarrow> totalFee
                  | Some pool \<Rightarrow> totalFee + (a * feeBps pool) sdiv 10000) acc r
         = acc + sum_list (map (hop_fee ps a) r)"
proof (induction r arbitrary: acc)
  case Nil
  then show ?case by simp
next
  case (Cons addr r)
  show ?case
  proof (cases "find (\<lambda>p. address p = addr) ps")
    case None
    then show ?thesis using Cons.IH by (simp add: hop_fee_def)
  next
    case (Some pool)
    then have "pool \<in> set ps" by (auto simp: find_Some_iff)
    with assms have "0 \<le> a * feeBps pool" by (simp add: wf_pool_def)
    then have "(a * feeBps pool) sdiv 10000 = (a * feeBps pool) div 10000"
      by (rule sdiv_nonneg_eq_div) simp
    with Some show ?thesis using Cons.IH by (simp add: hop_fee_def)
  qed
qed

text \<open>
  C7 (amended): for well-formed pools and a non-negative input amount, every address of
  the quoted route is found in the snapshot and the fee is the sum over the route of
  \<open>floor (amountIn \<times> feeBps / 10000)\<close>, each hop charged on the original \<open>amountIn\<close>.
\<close>

theorem quote_fee_on_amountIn:
  assumes "\<forall>p \<in> set ps. wf_pool p" and "0 \<le> a"
    and "getSwapQuote i outputMint a ps h = Some q"
  shows "(\<forall>addr \<in> set (route q). \<exists>pool \<in> set ps. find (\<lambda>p. address p = addr) ps = Some pool)
         \<and> fee q = (\<Sum>addr \<leftarrow> route q. hop_fee ps a addr)"
proof -
  from assms(3) obtain r out where f: "findOptimalRoute (AStarPathfinder_new ps h) i outputMint a = Some (r, out)"
    and q: "q = \<lparr>inputAmount = a, outputAmount = out, priceImpact = 0,
                 fee = foldl (\<lambda>totalFee poolAddress.
                               case find (\<lambda>p. address p = poolAddress) ps of
                                 None \<Rightarrow> totalFee
                               | Some pool \<Rightarrow> totalFee + (a * feeBps pool) sdiv 10000) 0 r,
                 route = r\<rparr>"
    by (auto simp: getSwapQuote_def split: option.splits)
  from findOptimalRoute_sound [OF f] obtain qs where sub: "set qs \<subseteq> set ps"
    and r: "r = map address qs"
    unfolding solution_ok_def by (auto simp: AStarPathfinder_new_def)
  have "\<forall>addr \<in> set r. \<exists>pool \<in> set ps. find (\<lambda>p. address p = addr) ps = Some pool"
  proof
    fix addr assume "addr \<in> set r"
    with r sub obtain p where "p \<in> set ps" and "address p = addr" by auto
    then have "find (\<lambda>p. address p = addr) ps \<noteq> None"
      by (auto simp: find_None_iff)
    then obtain pool where s: "find (\<lambda>p. address p = addr) ps = Some pool" by blast
    then have "pool \<in> set ps" by (auto simp: find_Some_iff)
    with s show "\<exists>pool \<in> set ps. find (\<lambda>p. address p = addr) ps = Some pool" by blast
  qed
  moreover have "fee q = (\<Sum>addr \<leftarrow> r. hop_fee ps a addr)"
    unfolding q using foldl_fee [OF assms(1,2), of 0 r] by simp
  ultimately show ?thesis unfolding q by simp
qed

theorem quote_fee_on_amountIn_witness:
  "wf_pool pool1 \<and> wf_pool pool2
   \<and> getSwapQuote 1 3 1000 [pool1, pool2] 3
       = Some \<lparr>inputAmount = 1000, outputAmount = 2976, priceImpact = 0, fee = 6, route = [101, 102]\<rparr>
   \<and> (\<Sum>addr \<leftarrow> [101, 102]. hop_fee [pool1, pool2] 1000 addr) = 6"
proof -
  have w: "\<forall>p \<in> set [pool1, pool2]. wf_pool p"
    by (simp add: wf_pool_def pool1_def pool2_def)
  have e: "getSwapQuote 1 3 1000 [pool1, pool2] 3
       = Some \<lparr>inputAmount = 1000, outputAmount = 2976, priceImpact = 0, fee = 6, route = [101, 102]\<rparr>"
    by code_simp
  have "(0 :: int) \<le> 1000" by simp
  from quote_fee_on_amountIn [OF w this e] w e show ?thesis by simp
qed

text \<open>
  C8 (the code at the failing input): the quote for 1000 of token A through the first
  test pool gives 1992, a shortfall of 0.4 percent against the spot price 2, and reports
  the price impact 0.
\<close>

theorem price_impact_not_computed:
  "map_option outputAmount (getSwapQuote 1 2 1000 [pool1] 3) = Some 1992
   \<and> map_option priceImpact (getSwapQuote 1 2 1000 [pool1] 3) = Some 0
   \<and> spec_priceImpact pool1 1 1000 1992 = 2 / 5"
proof -
  have "getSwapQuote 1 2 1000 [pool1] 3
       = Some \<lparr>inputAmount = 1000, outputAmount = 1992, priceImpact = 0, fee = 3, route = [101]\<rparr>"
    by code_simp
  moreover have "spec_priceImpact pool1 1 1000 1992 = 2 / 5"
    by (simp add: spec_priceImpact_def reserveIn_def reserveOut_def pool1_def)
  ultimately show ?thesis by simp
qed

end
